theory Spec2Isabelle
  imports Main "HOL-Library.Sublist" "HOL-Library.Word"
begin

section \<open>Outcomes of a call\<close>

text \<open>
  A Python call either returns a value or raises. The two exceptions that the modelled
  functions can raise by themselves are \<open>re.error\<close> (a pattern that does not compile) and
  \<open>UnicodeEncodeError\<close> (\<open>str.encode\<close> on a lone surrogate). \<open>ValueError\<close> and
  \<open>TypeError\<close> are what a library called by the code may raise.

  The third outcome, \<open>Unmodelled\<close>, marks the inputs on which Python's regular-expression
  syntax goes beyond the part embedded here (groups, alternation, classes, escapes and
  counted repeats inside a field name, a backslash in the replacement template). Nothing
  is stated about the code on such inputs.
\<close>

datatype exn = Re_error | UnicodeEncodeError | ValueError | TypeError

datatype 'a outcome = Return 'a | Raise exn | Unmodelled

section \<open>filtered\_logger.py\<close>

subsection \<open>The pattern \<open>{field}=[^;]*\<close>\<close>

text \<open>
  \<open>filter_datum\<close> builds the pattern \<open>fr"{field}=[^;]*"\<close>: the field name is pasted
  into the pattern as it is, so it is read as regular-expression syntax. A character that
  is not special stands for itself, \<open>.\<close> stands for any character but a newline.
  Strings are lists of \<^typ>\<open>char\<close>, one per code point (code points below 256).
\<close>

datatype atom = Lit char | Dot

definition regex_special :: "char \<Rightarrow> bool" where
  "regex_special c \<longleftrightarrow> c \<in> set ''.^$*+?{}[]|()'' \<or> c = CHR 0x5C"

definition repeat_char :: "char \<Rightarrow> bool" where
  "repeat_char c \<longleftrightarrow> c = CHR ''*'' \<or> c = CHR ''+'' \<or> c = CHR ''?''"

definition atom_of :: "char \<Rightarrow> atom" where
  "atom_of c = (if c = CHR ''.'' then Dot else Lit c)"

text \<open>
  Compiling the field part of the pattern. A field made of ordinary characters and dots
  compiles to one atom per character. A field that starts with \<open>*\<close>, \<open>+\<close> or \<open>?\<close> makes
  \<open>re.sub\<close> raise \<open>re.error\<close> (nothing to repeat). Every other field is outside the
  embedded syntax.
\<close>

definition compile_field :: "string \<Rightarrow> atom list outcome" where
  "compile_field field =
     (if list_all (\<lambda>c. c = CHR ''.'' \<or> \<not> regex_special c) field
      then Return (map atom_of field)
      else if field \<noteq> [] \<and> repeat_char (hd field) then Raise Re_error
      else Unmodelled)"

fun atom_match :: "atom \<Rightarrow> char \<Rightarrow> bool" where
  "atom_match (Lit a) c = (a = c)"
| "atom_match Dot c = (c \<noteq> CHR 0x0A)"

text \<open>\<open>match_here as s\<close>: the atoms match the first characters of \<open>s\<close>, one each.\<close>

fun match_here :: "atom list \<Rightarrow> string \<Rightarrow> bool" where
  "match_here [] s = True"
| "match_here (a # as) [] = False"
| "match_here (a # as) (c # cs) = (atom_match a c \<and> match_here as cs)"

text \<open>
  \<open>re.sub\<close> with the pattern \<open>atoms\<close>, \<open>=\<close>, \<open>[^;]*\<close> and a literal replacement: scan from
  the left; at the leftmost position where the atoms and \<open>=\<close> match, the match runs on
  greedily over every character that is not \<open>;\<close>, the replacement is written in its place
  and the scan goes on behind the match. Each match holds the \<open>=\<close> at least, so no match
  is empty.
\<close>

function sub_from :: "atom list \<Rightarrow> string \<Rightarrow> string \<Rightarrow> string" where
  "sub_from atoms repl [] = []"
| "sub_from atoms repl (c # cs) =
     (if match_here (atoms @ [Lit CHR ''='']) (c # cs)
      then repl @ sub_from atoms repl
             (dropWhile (\<lambda>x. x \<noteq> CHR '';'') (drop (Suc (length atoms)) (c # cs)))
      else c # sub_from atoms repl cs)"
  by pat_completeness auto
termination
proof (relation "measure (\<lambda>(atoms, repl, s). length s)")
  fix atoms :: "atom list" and repl :: string and c :: char and cs :: string
  have "length (dropWhile (\<lambda>x. x \<noteq> CHR '';'') (drop (length atoms) cs)) \<le> length cs"
    by (rule order_trans [OF length_dropWhile_le]) simp
  then show "((atoms, repl,
      dropWhile (\<lambda>x. x \<noteq> CHR '';'') (drop (Suc (length atoms)) (c # cs))),
      (atoms, repl, c # cs)) \<in> measure (\<lambda>(atoms, repl, s). length s)"
    by simp
qed simp_all

text \<open>
  One round of the loop: \<open>re.sub(fr"{field}=[^;]*", f"{field}={redaction}", message)\<close>.
  The pattern is compiled first. The replacement \<open>f"{field}={redaction}"\<close> is a template;
  without a backslash it is literal text.
\<close>

definition re_sub_field :: "string \<Rightarrow> string \<Rightarrow> string \<Rightarrow> string outcome" where
  "re_sub_field field redaction message =
     (case compile_field field of
        Return atoms \<Rightarrow>
          if CHR 0x5C \<in> set redaction then Unmodelled
          else Return (sub_from atoms (field @ ''='' @ redaction) message)
      | Raise e \<Rightarrow> Raise e
      | Unmodelled \<Rightarrow> Unmodelled)"

subsection \<open>\<open>RedactingFormatter.filter_datum\<close>\<close>

text \<open>
  The loop \<open>for field in fields: message = re.sub(...)\<close>. The argument \<open>separator\<close> is
  taken and never read.
\<close>

fun filter_datum :: "string list \<Rightarrow> string \<Rightarrow> string \<Rightarrow> string \<Rightarrow> string outcome" where
  "filter_datum [] redaction message separator = Return message"
| "filter_datum (field # fields) redaction message separator =
     (case re_sub_field field redaction message of
        Return message' \<Rightarrow> filter_datum fields redaction message' separator
      | Raise e \<Rightarrow> Raise e
      | Unmodelled \<Rightarrow> Unmodelled)"

text \<open>
  \<open>located field message\<close>: the pattern of \<open>field\<close> (its atoms, then \<open>=\<close>) matches
  somewhere in \<open>message\<close>, that is, \<open>re.sub\<close> has something to replace.
\<close>

fun match_anywhere :: "atom list \<Rightarrow> string \<Rightarrow> bool" where
  "match_anywhere as [] = match_here as []"
| "match_anywhere as (c # cs) = (match_here as (c # cs) \<or> match_anywhere as cs)"

definition located :: "string \<Rightarrow> string \<Rightarrow> bool" where
  "located field message = match_anywhere (map atom_of field @ [Lit CHR ''='']) message"

subsection \<open>The class \<open>RedactingFormatter\<close>\<close>

definition PII_FIELDS :: "string list" where
  "PII_FIELDS = [''name'', ''email'', ''phone'', ''ssn'', ''password'']"

definition REDACTION :: string where
  "REDACTION = ''***''"


definition SEPARATOR :: string where
  "SEPARATOR = ''; ''"



text \<open>
  A log record as \<open>logging.Formatter.format\<close> sees it once the message and the time are
  rendered, for a record that carries no exception and no stack information.
\<close>

record LogRecord =
  name :: string
  levelname :: string
  asctime :: string
  message :: string



subsection \<open>The message that \<open>main\<close> logs\<close>

text \<open>\<open>sep.join(xs)\<close>.\<close>

fun join :: "string \<Rightarrow> string list \<Rightarrow> string" where
  "join sep [] = []"
| "join sep [x] = x"
| "join sep (x # y # ys) = x @ sep @ join sep (y # ys)"

text \<open>\<open>"; ".join([f"{col}={val}" for col, val in zip(columns, row)])\<close>, on the zipped pairs.\<close>

definition user_data :: "(string \<times> string) list \<Rightarrow> string" where
  "user_data pairs = join ''; '' (map (\<lambda>(col, val). col @ ''='' @ val) pairs)"

section \<open>encrypt\_password.py\<close>

text \<open>
  A password is a Python \<open>str\<close>: a list of code points, lone surrogates included.
  \<open>password.encode()\<close> is UTF-8 and raises \<open>UnicodeEncodeError\<close> on a surrogate.
\<close>

type_synonym pystr = "nat list"
type_synonym bytes = "8 word list"

definition utf8 :: "nat \<Rightarrow> bytes outcome" where
  "utf8 cp =
     (if cp < 0x80 then Return [of_nat cp]
      else if cp < 0x800 then Return [of_nat (0xC0 + cp div 64), of_nat (0x80 + cp mod 64)]
      else if 0xD800 \<le> cp \<and> cp \<le> 0xDFFF then Raise UnicodeEncodeError
      else if cp < 0x10000 then
        Return [of_nat (0xE0 + cp div 4096), of_nat (0x80 + cp div 64 mod 64),
                of_nat (0x80 + cp mod 64)]
      else if cp < 0x110000 then
        Return [of_nat (0xF0 + cp div 262144), of_nat (0x80 + cp div 4096 mod 64),
                of_nat (0x80 + cp div 64 mod 64), of_nat (0x80 + cp mod 64)]
      else Unmodelled)"

fun encode :: "pystr \<Rightarrow> bytes outcome" where
  "encode [] = Return []"
| "encode (cp # cps) =
     (case utf8 cp of
        Return bs \<Rightarrow>
          (case encode cps of
             Return rest \<Rightarrow> Return (bs @ rest)
           | Raise e \<Rightarrow> Raise e
           | Unmodelled \<Rightarrow> Unmodelled)
      | Raise e \<Rightarrow> Raise e
      | Unmodelled \<Rightarrow> Unmodelled)"


text \<open>
  \<open>is_valid\<close> is \<open>return bcrypt.checkpw(password.encode(), hashed_password)\<close>, with no
  \<open>try\<close>. The library function \<open>bcrypt.checkpw\<close> is a parameter; the digest is any Python
  value and goes to it unread.
\<close>

definition is_valid :: "(bytes \<Rightarrow> 'h \<Rightarrow> bool outcome) \<Rightarrow> 'h \<Rightarrow> pystr \<Rightarrow> bool outcome" where
  "is_valid checkpw hashed_password password =
     (case encode password of
        Return pw \<Rightarrow> checkpw pw hashed_password
      | Raise e \<Rightarrow> Raise e
      | Unmodelled \<Rightarrow> Unmodelled)"

section \<open>Notions used to state the properties\<close>

text \<open>A field name that the pattern syntax reads letter by letter.\<close>

definition plain_field :: "string \<Rightarrow> bool" where
  "plain_field field = list_all (\<lambda>c. \<not> regex_special c) field"

text \<open>A field name inside the embedded syntax: ordinary characters and dots.\<close>

definition supported_field :: "string \<Rightarrow> bool" where
  "supported_field field = list_all (\<lambda>c. c = CHR ''.'' \<or> \<not> regex_special c) field"

text \<open>A redaction token that leaves the replacement template literal.\<close>

definition literal_token :: "string \<Rightarrow> bool" where
  "literal_token redaction \<longleftrightarrow> CHR 0x5C \<notin> set redaction"

text \<open>One round of the loop for a plain field, and the whole loop.\<close>

definition redact :: "string \<Rightarrow> string \<Rightarrow> string \<Rightarrow> string" where
  "redact field redaction m = sub_from (map Lit field) (field @ ''='' @ redaction) m"

definition redact_all :: "string list \<Rightarrow> string \<Rightarrow> string \<Rightarrow> string" where
  "redact_all fs redaction m = fold (\<lambda>field. redact field redaction) fs m"

text \<open>
  \<open>first_end key s\<close>: where the leftmost occurrence of \<open>key\<close> in \<open>s\<close> ends.
\<close>

fun first_end :: "string \<Rightarrow> string \<Rightarrow> nat option" where
  "first_end key [] = (if key = [] then Some 0 else None)"
| "first_end key (c # cs) =
     (if prefix key (c # cs) then Some (length key) else map_option Suc (first_end key cs))"

fun omin :: "nat option \<Rightarrow> nat option \<Rightarrow> nat option" where
  "omin None y = y"
| "omin (Some a) None = Some a"
| "omin (Some a) (Some b) = Some (min a b)"

text \<open>The earliest end of a first occurrence of \<open>field=\<close>, over the fields.\<close>

fun ends :: "string list \<Rightarrow> string \<Rightarrow> nat option" where
  "ends [] s = None"
| "ends (f # fs) s = omin (first_end (f @ ''='') s) (ends fs s)"

text \<open>A stretch of the message cut behind position \<open>e\<close> and closed by the token.\<close>

fun cut :: "nat option \<Rightarrow> string \<Rightarrow> string \<Rightarrow> string" where
  "cut None redaction s = s"
| "cut (Some e) redaction s = take e s @ redaction"

text \<open>
  One round and the whole loop on a stretch without \<open>;\<close>, and the \<open>anchors\<close> of a run:
  the prefixes behind which a round of the run has cut.
\<close>

definition seg_round :: "string \<Rightarrow> string \<Rightarrow> string \<Rightarrow> string" where
  "seg_round f r x = cut (first_end (f @ ''='') x) r x"

definition seg_run :: "string list \<Rightarrow> string \<Rightarrow> string \<Rightarrow> string" where
  "seg_run fs r x = fold (\<lambda>f. seg_round f r) fs x"

fun anchors :: "string list \<Rightarrow> string \<Rightarrow> string \<Rightarrow> string list" where
  "anchors [] r x = []"
| "anchors (f # fs) r x =
     (case first_end (f @ ''='') x of None \<Rightarrow> [] | Some e \<Rightarrow> [take e x])
       @ anchors fs r (seg_round f r x)"

section \<open>Plain field names\<close>

text \<open>
  For a field name without metacharacter the pattern is the text \<open>field=\<close>, and one round
  of the loop is \<open>redact\<close>.
\<close>

lemma atom_of_plain: "\<not> regex_special c \<Longrightarrow> atom_of c = Lit c"
  by (auto simp: atom_of_def regex_special_def)

lemma map_atom_of_plain: "plain_field f \<Longrightarrow> map atom_of f = map Lit f"
  by (induction f) (simp_all add: plain_field_def atom_of_plain)

lemma plain_supported: "plain_field f \<Longrightarrow> supported_field f"
  by (induction f) (simp_all add: plain_field_def supported_field_def)

lemma compile_supported: "supported_field f \<Longrightarrow> compile_field f = Return (map atom_of f)"
  by (simp add: compile_field_def supported_field_def)

lemma compile_plain: "plain_field f \<Longrightarrow> compile_field f = Return (map Lit f)"
  by (simp add: compile_supported plain_supported map_atom_of_plain)

lemma compile_repeat: "repeat_char c \<Longrightarrow> compile_field (c # rest) = Raise Re_error"
  by (auto simp: compile_field_def repeat_char_def regex_special_def)

lemma re_sub_field_plain:
  "plain_field f \<Longrightarrow> literal_token r \<Longrightarrow> re_sub_field f r m = Return (redact f r m)"
  by (simp add: re_sub_field_def compile_plain literal_token_def redact_def)

lemma filter_datum_plain:
  "list_all plain_field fs \<Longrightarrow> literal_token r \<Longrightarrow>
   filter_datum fs r m sep = Return (redact_all fs r m)"
  by (induction fs arbitrary: m) (simp_all add: redact_all_def re_sub_field_plain)

lemma match_here_Lit: "match_here (map Lit k) s \<longleftrightarrow> prefix k s"
proof (induction k arbitrary: s)
  case Nil
  show ?case by simp
next
  case (Cons a k)
  show ?case by (cases s) (simp_all add: Cons.IH)
qed

lemma match_key_Lit: "match_here (map Lit f @ [Lit CHR ''='']) s \<longleftrightarrow> prefix (f @ ''='') s"
  using match_here_Lit [of "f @ ''=''" s] by simp

lemma redact_Nil: "redact f r [] = []"
  by (simp add: redact_def)

lemma redact_Cons:
  "redact f r (c # cs) =
     (if prefix (f @ ''='') (c # cs)
      then f @ ''='' @ r @ redact f r (dropWhile (\<lambda>x. x \<noteq> CHR '';'') (drop (Suc (length f)) (c # cs)))
      else c # redact f r cs)"
  by (simp add: redact_def match_key_Lit del: match_here.simps)


lemma redact_match:
  "redact f r (f @ ''='' @ rest) =
     f @ ''='' @ r @ redact f r (dropWhile (\<lambda>x. x \<noteq> CHR '';'') rest)"
proof -
  obtain c cs where eq: "f @ ''='' @ rest = c # cs"
    by (cases "f @ ''='' @ rest") simp_all
  have d: "drop (Suc (length f)) (f @ ''='' @ rest) = rest"
    by simp
  have p: "prefix (f @ ''='') (f @ ''='' @ rest)"
    by (simp add: prefix_def)
  show ?thesis
    using redact_Cons [of f r c cs] d p unfolding eq [symmetric] by simp
qed

lemma redact_skip:
  "\<not> prefix (f @ ''='') (c # cs) \<Longrightarrow> redact f r (c # cs) = c # redact f r cs"
  by (simp add: redact_Cons)

lemma sub_from_no_match: "\<not> match_anywhere (as @ [Lit CHR ''='']) s \<Longrightarrow> sub_from as r s = s"
  by (induction s) simp_all

lemma re_sub_field_not_located:
  "supported_field f \<Longrightarrow> literal_token r \<Longrightarrow> \<not> located f m \<Longrightarrow> re_sub_field f r m = Return m"
  by (simp add: re_sub_field_def compile_supported literal_token_def located_def sub_from_no_match)

lemma count_dropWhile_semi:
  "count_list (dropWhile (\<lambda>x. x \<noteq> c) xs) c = count_list xs c"
  by (induction xs) simp_all

lemma redact_count:
  "CHR '';'' \<notin> set r \<Longrightarrow> count_list (redact f r m) CHR '';'' = count_list m CHR '';''"
proof (induction m rule: length_induct)
  case (1 m)
  show ?case
  proof (cases m)
    case Nil
    then show ?thesis by (simp add: redact_Nil)
  next
    case (Cons c cs)
    show ?thesis
    proof (cases "prefix (f @ ''='') m")
      case True
      then obtain rest where m: "m = f @ ''='' @ rest" by (auto simp: prefix_def)
      let ?d = "dropWhile (\<lambda>x. x \<noteq> CHR '';'') rest"
      have len: "length ?d < length m"
        using length_dropWhile_le [of "\<lambda>x. x \<noteq> CHR '';''" rest] by (simp add: m)
      have "count_list (redact f r ?d) CHR '';'' = count_list ?d CHR '';''"
        using 1 len by blast
      then show ?thesis
        using \<open>CHR '';'' \<notin> set r\<close> unfolding m redact_match
        by (simp add: count_dropWhile_semi)
    next
      case False
      then have "redact f r m = c # redact f r cs"
        using Cons redact_skip by simp
      moreover have "count_list (redact f r cs) CHR '';'' = count_list cs CHR '';''"
        using 1 Cons by simp
      ultimately show ?thesis by (simp add: Cons)
    qed
  qed
qed

lemma redact_all_count:
  "CHR '';'' \<notin> set r \<Longrightarrow> count_list (redact_all fs r m) CHR '';'' = count_list m CHR '';''"
  by (induction fs arbitrary: m) (simp_all add: redact_all_def redact_count)

section \<open>The message between two semicolons\<close>

text \<open>
  No match of a field without \<open>;\<close> reaches over a \<open>;\<close> of the message, so the loop works
  on each stretch between two \<open>;\<close> by itself. On such a stretch a round cuts behind the
  first \<open>field=\<close> and appends the token.
\<close>

lemma prefix_before: "x \<notin> set key \<Longrightarrow> prefix key (a @ x # b) \<longleftrightarrow> prefix key a"
proof
  assume x: "x \<notin> set key" and p: "prefix key (a @ x # b)"
  from p consider "prefix key a" | us where "key = a @ us" "prefix us (x # b)"
    by (auto simp: prefix_append)
  then show "prefix key a"
  proof cases
    case 1
    then show ?thesis .
  next
    case 2
    with x show ?thesis by (cases us) auto
  qed
next
  assume "prefix key a"
  then show "prefix key (a @ x # b)" by simp
qed

lemma dropWhile_upto:
  "dropWhile (\<lambda>x. x \<noteq> c) (xs @ c # ys) = dropWhile (\<lambda>x. x \<noteq> c) xs @ c # ys"
  by (induction xs) simp_all

lemma redact_semi:
  assumes f: "CHR '';'' \<notin> set f"
  shows "redact f r (a @ CHR '';'' # b) = redact f r a @ CHR '';'' # redact f r b"
proof (induction a rule: length_induct)
  case (1 a)
  have k: "CHR '';'' \<notin> set (f @ ''='')" using f by simp
  show ?case
  proof (cases a)
    case Nil
    have "\<not> prefix (f @ ''='') (CHR '';'' # b)"
      using prefix_before [OF k, of "[]" b] by simp
    then show ?thesis by (simp add: Nil redact_skip redact_Nil)
  next
    case (Cons c cs)
    show ?thesis
    proof (cases "prefix (f @ ''='') a")
      case True
      then obtain rest where a: "a = f @ ''='' @ rest" by (auto simp: prefix_def)
      let ?d = "dropWhile (\<lambda>x. x \<noteq> CHR '';'') rest"
      have "length ?d < length a"
        using length_dropWhile_le [of "\<lambda>x. x \<noteq> CHR '';''" rest] by (simp add: a)
      then have ih: "redact f r (?d @ CHR '';'' # b) = redact f r ?d @ CHR '';'' # redact f r b"
        using 1 by blast
      have "redact f r (a @ CHR '';'' # b) = redact f r (f @ ''='' @ (rest @ CHR '';'' # b))"
        by (simp add: a)
      also have "\<dots> = f @ ''='' @ r @ redact f r (?d @ CHR '';'' # b)"
        unfolding redact_match dropWhile_upto ..
      also have "\<dots> = redact f r a @ CHR '';'' # redact f r b"
        unfolding ih a redact_match by simp
      finally show ?thesis .
    next
      case False
      then have "\<not> prefix (f @ ''='') (c # (cs @ CHR '';'' # b))"
        using prefix_before [OF k, of a b] by (simp add: Cons)
      then have "redact f r (a @ CHR '';'' # b) = c # redact f r (cs @ CHR '';'' # b)"
        by (simp add: Cons redact_skip)
      moreover have "redact f r (cs @ CHR '';'' # b) = redact f r cs @ CHR '';'' # redact f r b"
        using 1 Cons by simp
      moreover have "redact f r a = c # redact f r cs"
        using False by (simp add: Cons redact_skip)
      ultimately show ?thesis by simp
    qed
  qed
qed

lemma redact_all_Nil: "redact_all [] r m = m"
  by (simp add: redact_all_def)

lemma redact_all_Cons: "redact_all (f # fs) r m = redact_all fs r (redact f r m)"
  by (simp add: redact_all_def)

lemma redact_all_semi:
  "\<forall>f\<in>set fs. CHR '';'' \<notin> set f \<Longrightarrow>
   redact_all fs r (a @ CHR '';'' # b) = redact_all fs r a @ CHR '';'' # redact_all fs r b"
  by (induction fs arbitrary: a b) (simp_all add: redact_all_Nil redact_all_Cons redact_semi)

lemma first_end_bounds: "first_end key s = Some e \<Longrightarrow> length key \<le> e \<and> e \<le> length s"
proof (induction s arbitrary: e)
  case Nil
  then show ?case by (simp split: if_splits)
next
  case (Cons c cs)
  show ?case
  proof (cases "prefix key (c # cs)")
    case True
    with Cons.prems show ?thesis using prefix_length_le [OF True] by simp
  next
    case False
    with Cons.prems obtain e' where "first_end key cs = Some e'" "e = Suc e'" by auto
    with Cons.IH show ?thesis by auto
  qed
qed

lemma cut_Suc: "cut (map_option Suc x) r (c # cs) = c # cut x r cs"
  by (cases x) simp_all

lemma redact_segment:
  "CHR '';'' \<notin> set s \<Longrightarrow> redact f r s = cut (first_end (f @ ''='') s) r s"
proof (induction s)
  case Nil
  show ?case by (simp add: redact_Nil)
next
  case (Cons c cs)
  show ?case
  proof (cases "prefix (f @ ''='') (c # cs)")
    case True
    then obtain rest where s: "c # cs = f @ ''='' @ rest" by (auto simp: prefix_def)
    have "CHR '';'' \<notin> set rest" using Cons.prems unfolding s by simp
    then have "dropWhile (\<lambda>x. x \<noteq> CHR '';'') rest = []" by auto
    then have "redact f r (f @ ''='' @ rest) = f @ ''='' @ r"
      by (simp only: redact_match redact_Nil append_Nil2)
    then have "redact f r (c # cs) = f @ ''='' @ r"
      by (simp only: s)
    moreover have "cut (first_end (f @ ''='') (c # cs)) r (c # cs) = take (Suc (length f)) (c # cs) @ r"
      using True by simp
    moreover have "take (Suc (length f)) (c # cs) = f @ ''=''"
      unfolding s by simp
    ultimately show ?thesis by simp
  next
    case False
    then show ?thesis using Cons by (simp add: redact_skip cut_Suc)
  qed
qed

lemma prefix_take_iff: "prefix k (take n s) \<longleftrightarrow> prefix k s \<and> length k \<le> n"
proof
  assume p: "prefix k (take n s)"
  then have "prefix k s" using take_is_prefix [of n s] by (rule prefix_order.trans)
  moreover have "length k \<le> n" using prefix_length_le [OF p] by simp
  ultimately show "prefix k s \<and> length k \<le> n" ..
next
  assume "prefix k s \<and> length k \<le> n"
  then obtain z where "s = k @ z" "length k \<le> n" by (auto simp: prefix_def)
  then show "prefix k (take n s)" by simp
qed

lemma first_end_take:
  "first_end key (take n s) =
     (case first_end key s of None \<Rightarrow> None | Some e \<Rightarrow> if e \<le> n then Some e else None)"
proof (induction s arbitrary: n)
  case Nil
  show ?case by simp
next
  case (Cons c cs)
  show ?case
  proof (cases n)
    case 0
    then show ?thesis by (auto split: option.splits)
  next
    case (Suc m)
    have pt: "prefix key (c # take m cs) \<longleftrightarrow> prefix key (c # cs) \<and> length key \<le> Suc m"
      using prefix_take_iff [of key "Suc m" "c # cs"] by simp
    show ?thesis
    proof (cases "prefix key (c # cs)")
      case True
      show ?thesis
      proof (cases "length key \<le> Suc m")
        case True
        with \<open>prefix key (c # cs)\<close> pt show ?thesis by (simp add: Suc)
      next
        case False
        have "first_end key (take m cs) = None"
        proof (cases "first_end key cs")
          case None
          then show ?thesis by (simp add: Cons.IH)
        next
          case (Some e)
          with first_end_bounds [OF Some] False show ?thesis by (simp add: Cons.IH)
        qed
        with False \<open>prefix key (c # cs)\<close> pt show ?thesis by (simp add: Suc)
      qed
    next
      case False
      with pt show ?thesis by (simp add: Suc Cons.IH split: option.splits)
    qed
  qed
qed

lemma first_end_token:
  assumes "key \<noteq> []" "last key \<notin> set r"
  shows "first_end key r = None"
  using assms
proof (induction r)
  case Nil
  then show ?case by simp
next
  case (Cons c cs)
  have "\<not> prefix key (c # cs)"
  proof
    assume "prefix key (c # cs)"
    then have "set key \<subseteq> set (c # cs)" by (rule set_mono_prefix)
    with Cons.prems show False using last_in_set by blast
  qed
  with Cons show ?case by simp
qed

lemma first_end_append_token:
  assumes "key \<noteq> []" "last key \<notin> set r"
  shows "first_end key (xs @ r) = first_end key xs"
proof (induction xs)
  case Nil
  show ?case using assms by (simp add: first_end_token)
next
  case (Cons c cs)
  have "prefix key ((c # cs) @ r) \<longleftrightarrow> prefix key (c # cs)"
  proof
    assume "prefix key ((c # cs) @ r)"
    then have "prefix key (c # cs) \<or> (\<exists>us. key = (c # cs) @ us \<and> prefix us r)"
      by (simp only: prefix_append)
    then consider "prefix key (c # cs)" | us where "key = (c # cs) @ us" "prefix us r"
      by blast
    then show "prefix key (c # cs)"
    proof cases
      case 1 then show ?thesis .
    next
      case 2
      show ?thesis
      proof (cases us)
        case Nil
        with 2 show ?thesis by simp
      next
        case (Cons u us')
        then have "last key = last us" using 2 by simp
        moreover have "last us \<in> set r"
          using 2(2) Cons set_mono_prefix [of us r] last_in_set [of us] by auto
        ultimately show ?thesis using assms by simp
      qed
    qed
  next
    assume "prefix key (c # cs)"
    then show "prefix key ((c # cs) @ r)" by (rule prefix_prefix)
  qed
  then show ?case using Cons by simp
qed

lemma omin_None_right: "omin c None = c"
  by (cases c) simp_all

lemma omin_assoc: "omin (omin a b) c = omin a (omin b c)"
  by (cases a; cases b; cases c) (simp_all add: min.assoc)

lemma segment_step:
  assumes s: "CHR '';'' \<notin> set s" and r: "CHR '';'' \<notin> set r" "CHR ''='' \<notin> set r"
  shows "redact f r (cut c r s) = cut (omin c (first_end (f @ ''='') s)) r s"
proof (cases c)
  case None
  then show ?thesis using s by (simp add: redact_segment)
next
  case (Some e)
  let ?k = "f @ ''=''"
  have seg: "CHR '';'' \<notin> set (take e s @ r)"
    using s r(1) by (auto dest: in_set_takeD)
  have fe: "first_end ?k (take e s @ r) = first_end ?k (take e s)"
    using r(2) by (intro first_end_append_token) simp_all
  have red: "redact f r (take e s @ r) = cut (first_end ?k (take e s)) r (take e s @ r)"
    using redact_segment [OF seg] fe by simp
  show ?thesis
  proof (cases "first_end ?k s")
    case None
    then show ?thesis using red Some by (simp add: first_end_take)
  next
    case (Some e') note e' = this
    show ?thesis
    proof (cases "e' \<le> e")
      case True
      have "e' \<le> length s" using first_end_bounds [OF e'] by simp
      then have "take e' (take e s @ r) = take e' s" using True by (simp add: min_def)
      then show ?thesis using red \<open>c = Some e\<close> e' True by (simp add: first_end_take min_def)
    next
      case False
      then show ?thesis using red \<open>c = Some e\<close> e' by (simp add: first_end_take min_def)
    qed
  qed
qed

lemma segment_fold:
  assumes s: "CHR '';'' \<notin> set s" and r: "CHR '';'' \<notin> set r" "CHR ''='' \<notin> set r"
  shows "redact_all fs r (cut c r s) = cut (omin c (ends fs s)) r s"
proof (induction fs arbitrary: c)
  case Nil
  show ?case by (simp add: redact_all_Nil omin_None_right)
next
  case (Cons f fs)
  show ?case
    unfolding redact_all_Cons segment_step [OF s r] Cons.IH by (simp add: omin_assoc)
qed

lemma redact_all_segment:
  "CHR '';'' \<notin> set s \<Longrightarrow> CHR '';'' \<notin> set r \<Longrightarrow> CHR ''='' \<notin> set r \<Longrightarrow>
   redact_all fs r s = cut (ends fs s) r s"
  using segment_fold [of s r fs None] by simp

lemma ends_None: "ends fs s = None \<longleftrightarrow> (\<forall>f\<in>set fs. first_end (f @ ''='') s = None)"
proof (induction fs)
  case Nil
  show ?case by simp
next
  case (Cons f fs)
  then show ?case by (cases "first_end (f @ ''='') s"; cases "ends fs s") auto
qed

lemma ends_Some:
  "ends fs s = Some e \<longleftrightarrow>
     (\<exists>f\<in>set fs. first_end (f @ ''='') s = Some e) \<and>
     (\<forall>f\<in>set fs. \<forall>e'. first_end (f @ ''='') s = Some e' \<longrightarrow> e \<le> e')"
proof (induction fs arbitrary: e)
  case Nil
  show ?case by simp
next
  case (Cons f fs)
  show ?case
  proof (cases "first_end (f @ ''='') s")
    case None
    then show ?thesis using Cons by simp
  next
    case (Some a) note a = this
    show ?thesis
    proof (cases "ends fs s")
      case None
      then have "\<forall>g\<in>set fs. first_end (g @ ''='') s = None" by (simp add: ends_None)
      then show ?thesis using a None by auto
    next
      case (Some b)
      then have b: "(\<exists>g\<in>set fs. first_end (g @ ''='') s = Some b)"
         "(\<forall>g\<in>set fs. \<forall>e'. first_end (g @ ''='') s = Some e' \<longrightarrow> b \<le> e')"
        using Cons.IH [of b] by auto
      show ?thesis
      proof
        assume "ends (f # fs) s = Some e"
        then have e: "e = min a b" using a Some by simp
        show "(\<exists>g\<in>set (f # fs). first_end (g @ ''='') s = Some e) \<and>
          (\<forall>g\<in>set (f # fs). \<forall>e'. first_end (g @ ''='') s = Some e' \<longrightarrow> e \<le> e')"
          using a b unfolding e by (cases "a \<le> b") (auto simp: min_def)
      next
        assume h: "(\<exists>g\<in>set (f # fs). first_end (g @ ''='') s = Some e) \<and>
          (\<forall>g\<in>set (f # fs). \<forall>e'. first_end (g @ ''='') s = Some e' \<longrightarrow> e \<le> e')"
        then have "e \<le> a" using a by simp
        moreover from h b(1) have "e \<le> b" by auto
        moreover from h a b(2) have "e = a \<or> b \<le> e" by auto
        ultimately have "e = min a b" by (auto simp: min_def)
        then show "ends (f # fs) s = Some e" using a Some by simp
      qed
    qed
  qed
qed

lemma ends_cong_set:
  assumes "set fs = set gs"
  shows "ends fs s = ends gs s"
proof (cases "ends fs s")
  case None
  then have "ends gs s = None" unfolding ends_None assms .
  with None show ?thesis by simp
next
  case (Some e)
  then have "ends gs s = Some e" unfolding ends_Some assms .
  with Some show ?thesis by simp
qed

lemma segments_induct [consumes 0, case_names segment semi]:
  assumes seg: "\<And>s. CHR '';'' \<notin> set s \<Longrightarrow> P s"
    and semi: "\<And>a b. CHR '';'' \<notin> set a \<Longrightarrow> P b \<Longrightarrow> P (a @ CHR '';'' # b)"
  shows "P m"
proof (induction m rule: length_induct)
  case (1 m)
  show ?case
  proof (cases "CHR '';'' \<in> set m")
    case False
    then show ?thesis by (rule seg)
  next
    case True
    then obtain a b where m: "m = a @ CHR '';'' # b" "CHR '';'' \<notin> set a"
      by (auto dest: split_list_first)
    then have "P b" using 1 by simp
    with m show ?thesis by (simp add: semi)
  qed
qed

lemma redact_all_cong_set:
  assumes "set fs = set gs" "\<forall>f\<in>set fs. CHR '';'' \<notin> set f"
    "CHR '';'' \<notin> set r" "CHR ''='' \<notin> set r"
  shows "redact_all fs r m = redact_all gs r m"
proof (induction m rule: segments_induct)
  case (segment s)
  then show ?case using assms by (simp add: redact_all_segment ends_cong_set [of fs gs])
next
  case (semi a b)
  have "\<forall>f\<in>set gs. CHR '';'' \<notin> set f" using assms by simp
  then show ?case
    using semi assms by (simp add: redact_all_semi redact_all_segment ends_cong_set [of fs gs])
qed

section \<open>Running the loop again on a stretch\<close>

text \<open>
  A string that starts with an anchor of a run is taken by the rest of the run to the
  same result as the run's own string: the round that cut there cuts there again. The
  result of a run starts with one of its anchors, so a second run changes nothing.
\<close>

lemma seg_run_Nil: "seg_run [] r x = x"
  by (simp add: seg_run_def)

lemma seg_run_Cons: "seg_run (f # fs) r x = seg_run fs r (seg_round f r x)"
  by (simp add: seg_run_def)

lemma seg_round_None: "first_end (f @ ''='') x = None \<Longrightarrow> seg_round f r x = x"
  by (simp add: seg_round_def)

lemma seg_round_Some: "first_end (f @ ''='') x = Some e \<Longrightarrow> seg_round f r x = take e x @ r"
  by (simp add: seg_round_def)

lemma seg_round_segment:
  "CHR '';'' \<notin> set x \<Longrightarrow> CHR '';'' \<notin> set r \<Longrightarrow> CHR '';'' \<notin> set (seg_round f r x)"
  by (cases "first_end (f @ ''='') x") (auto simp: seg_round_def dest: in_set_takeD)

lemma redact_all_seg_run:
  "CHR '';'' \<notin> set x \<Longrightarrow> CHR '';'' \<notin> set r \<Longrightarrow> redact_all fs r x = seg_run fs r x"
proof (induction fs arbitrary: x)
  case Nil
  show ?case by (simp add: redact_all_Nil seg_run_Nil)
next
  case (Cons f fs)
  have "redact f r x = seg_round f r x"
    using Cons.prems(1) by (simp add: redact_segment seg_round_def)
  moreover have "CHR '';'' \<notin> set (seg_round f r x)"
    using Cons.prems by (rule seg_round_segment)
  ultimately show ?case
    using Cons.IH [of "seg_round f r x"] Cons.prems(2)
    by (simp add: redact_all_Cons seg_run_Cons)
qed

lemma seg_run_segment:
  "CHR '';'' \<notin> set x \<Longrightarrow> CHR '';'' \<notin> set r \<Longrightarrow> CHR '';'' \<notin> set (seg_run fs r x)"
  by (induction fs arbitrary: x) (simp_all add: seg_run_Nil seg_run_Cons seg_round_segment)

lemma first_end_own_prefix: "first_end k x = Some e \<Longrightarrow> first_end k (take e x) = Some e"
  by (simp add: first_end_take)

lemma first_end_in_prefix:
  assumes "prefix a y" and "first_end k y = Some e" and "e \<le> length a"
  shows "first_end k a = Some e"
proof -
  from assms(1) have "a = take (length a) y" by (auto simp: prefix_def)
  then have "first_end k a = first_end k (take (length a) y)" by simp
  also have "\<dots> = Some e" using assms(2,3) by (simp add: first_end_take)
  finally show ?thesis .
qed

lemma take_of_prefix: "prefix a y \<Longrightarrow> e \<le> length a \<Longrightarrow> take e y = take e a"
  by (auto simp: prefix_def)

lemma first_end_extend:
  assumes "first_end k x = Some e" and "prefix (take e x) y"
  shows "first_end k y = Some e"
proof -
  have le: "e \<le> length x" using first_end_bounds [OF assms(1)] by simp
  then have len: "length (take e x) = e" by simp
  have "take e y = take e (take e x)"
    using assms(2) len by (intro take_of_prefix) simp_all
  then have ty: "take e y = take e x" by simp
  have "first_end k (take e y) = Some e"
    unfolding ty using assms(1) by (rule first_end_own_prefix)
  then show ?thesis
    by (simp add: first_end_take split: option.splits if_splits)
qed

lemma seg_round_extend:
  assumes "first_end (f @ ''='') x = Some e" and "prefix (take e x) y"
  shows "seg_round f r y = seg_round f r x"
proof -
  have le: "e \<le> length x" using first_end_bounds [OF assms(1)] by simp
  have "take e y = take e (take e x)"
    using assms(2) le by (intro take_of_prefix) simp_all
  then have "take e y = take e x" by simp
  moreover have "first_end (f @ ''='') y = Some e"
    using assms by (rule first_end_extend)
  ultimately show ?thesis using assms(1) by (simp add: seg_round_Some)
qed

lemma seg_round_stable:
  assumes "first_end (f @ ''='') (seg_round f r x) = Some e"
  shows "take e (seg_round f r x) @ r = seg_round f r x"
proof (cases "first_end (f @ ''='') x")
  case None
  with assms show ?thesis by (simp add: seg_round_None)
next
  case (Some e0)
  have le: "e0 \<le> length x" using first_end_bounds [OF Some] by simp
  have x': "seg_round f r x = take e0 x @ r" using Some by (rule seg_round_Some)
  have "first_end (f @ ''='') (take e0 x @ r) = Some e0"
    using Some by (rule first_end_extend) simp
  with assms have "e = e0" by (simp add: x')
  then show ?thesis using le by (simp add: x')
qed

lemma anchors_stable:
  assumes "a \<in> set (anchors fs r x)" and "first_end k a = Some e"
    and "\<And>e'. first_end k x = Some e' \<Longrightarrow> Tgt (take e' x @ r)"
  shows "Tgt (take e a @ r) \<or> (\<exists>a'\<in>set (anchors fs r x). prefix a' (take e a @ r))"
  using assms
proof (induction fs arbitrary: x Tgt)
  case Nil
  then show ?case by simp
next
  case (Cons g fs)
  let ?x' = "seg_round g r x"
  let ?here = "case first_end (g @ ''='') x of None \<Rightarrow> [] | Some eg \<Rightarrow> [take eg x]"
  from Cons.prems(1) consider "a \<in> set ?here" | "a \<in> set (anchors fs r ?x')"
    by auto
  then show ?case
  proof cases
    case 1
    then obtain eg where eg: "first_end (g @ ''='') x = Some eg" "a = take eg x"
      by (cases "first_end (g @ ''='') x") simp_all
    have "first_end k x = Some e \<and> e \<le> eg"
      using Cons.prems(2) unfolding eg(2)
      by (simp add: first_end_take split: option.splits if_splits)
    then have "Tgt (take e x @ r)" "take e a = take e x"
      using Cons.prems(3) eg(2) by (simp_all add: min_def)
    then show ?thesis by simp
  next
    case 2
    let ?T = "\<lambda>t. Tgt t \<or> (\<exists>a'\<in>set ?here. prefix a' t)"
    have P': "?T (take e' ?x' @ r)" if fe: "first_end k ?x' = Some e'" for e'
    proof (cases "first_end (g @ ''='') x")
      case None
      then have "?x' = x" by (rule seg_round_None)
      with fe Cons.prems(3) show ?thesis by simp
    next
      case (Some eg)
      have le: "eg \<le> length x" using first_end_bounds [OF Some] by simp
      have x': "?x' = take eg x @ r" using Some by (rule seg_round_Some)
      show ?thesis
      proof (cases "e' \<le> eg")
        case True
        have "prefix (take eg x) (take eg x @ r)" by simp
        moreover have "first_end k (take eg x @ r) = Some e'" using fe by (simp add: x')
        moreover have "e' \<le> length (take eg x)" using True le by simp
        ultimately have "first_end k (take eg x) = Some e'"
          by (rule first_end_in_prefix)
        then have "first_end k x = Some e'"
          by (simp add: first_end_take split: option.splits if_splits)
        then have "Tgt (take e' x @ r)" by (rule Cons.prems(3))
        moreover have "take e' ?x' = take e' x"
          using True le by (simp add: x' min_def)
        ultimately show ?thesis by simp
      next
        case False
        then have "prefix (take eg x) (take e' ?x' @ r)"
          using le by (simp add: x' prefix_def)
        then show ?thesis using Some by simp
      qed
    qed
    have "?T (take e a @ r) \<or> (\<exists>a'\<in>set (anchors fs r ?x'). prefix a' (take e a @ r))"
      using 2 Cons.prems(2) P' by (rule Cons.IH)
    then show ?thesis by auto
  qed
qed

lemma anchored_step:
  assumes "y = x \<or> (\<exists>a\<in>set (anchors (f # fs) r x). prefix a y)"
  shows "seg_round f r y = seg_round f r x \<or>
         (\<exists>a\<in>set (anchors fs r (seg_round f r x)). prefix a (seg_round f r y))"
proof -
  let ?k = "f @ ''=''"
  let ?x' = "seg_round f r x"
  let ?here = "case first_end ?k x of None \<Rightarrow> [] | Some e \<Rightarrow> [take e x]"
  have split: "set (anchors (f # fs) r x) = set ?here \<union> set (anchors fs r ?x')"
    by (simp only: anchors.simps set_append)
  from assms consider "y = x" | a where "a \<in> set ?here" "prefix a y"
    | a where "a \<in> set (anchors fs r ?x')" "prefix a y"
    unfolding split by blast
  then show ?thesis
  proof cases
    case 1
    then show ?thesis by simp
  next
    case 2
    then obtain e0 where "first_end ?k x = Some e0" "a = take e0 x"
      by (cases "first_end ?k x") simp_all
    with 2(2) have "seg_round f r y = ?x'" by (simp add: seg_round_extend)
    then show ?thesis ..
  next
    case 3
    show ?thesis
    proof (cases "first_end ?k y")
      case None
      then have "seg_round f r y = y" by (rule seg_round_None)
      with 3 show ?thesis by auto
    next
      case (Some e)
      have y': "seg_round f r y = take e y @ r" using Some by (rule seg_round_Some)
      show ?thesis
      proof (cases "length a \<le> e")
        case True
        from 3(2) obtain z where "y = a @ z" by (auto simp: prefix_def)
        with True have "prefix a (take e y @ r)" by (simp add: prefix_def)
        with 3(1) show ?thesis unfolding y' by auto
      next
        case False
        then have ea: "e \<le> length a" by simp
        have fa: "first_end ?k a = Some e"
          using 3(2) Some ea by (rule first_end_in_prefix)
        have ta: "take e y = take e a" using 3(2) ea by (rule take_of_prefix)
        have "take e a @ r = ?x' \<or> (\<exists>a'\<in>set (anchors fs r ?x'). prefix a' (take e a @ r))"
          using 3(1) fa
        proof (rule anchors_stable)
          fix e'
          assume "first_end ?k ?x' = Some e'"
          then show "take e' ?x' @ r = ?x'" by (rule seg_round_stable)
        qed
        then show ?thesis unfolding y' ta .
      qed
    qed
  qed
qed

lemma anchored_run:
  "y = x \<or> (\<exists>a\<in>set (anchors fs r x). prefix a y) \<Longrightarrow> seg_run fs r y = seg_run fs r x"
proof (induction fs arbitrary: x y)
  case Nil
  then show ?case by simp
next
  case (Cons f fs)
  from Cons.prems have "seg_round f r y = seg_round f r x \<or>
      (\<exists>a\<in>set (anchors fs r (seg_round f r x)). prefix a (seg_round f r y))"
    by (rule anchored_step)
  then have "seg_run fs r (seg_round f r y) = seg_run fs r (seg_round f r x)"
    by (rule Cons.IH)
  then show ?case by (simp add: seg_run_Cons)
qed

lemma seg_run_anchored:
  "seg_run fs r x = x \<or> (\<exists>a\<in>set (anchors fs r x). prefix a (seg_run fs r x))"
proof (induction fs arbitrary: x)
  case Nil
  show ?case by (simp add: seg_run_Nil)
next
  case (Cons f fs)
  let ?x' = "seg_round f r x"
  from Cons.IH [of ?x'] consider "seg_run fs r ?x' = ?x'"
    | "\<exists>a\<in>set (anchors fs r ?x'). prefix a (seg_run fs r ?x')"
    by blast
  then show ?case
  proof cases
    case 1
    show ?thesis
    proof (cases "first_end (f @ ''='') x")
      case None
      then show ?thesis using 1 by (simp add: seg_run_Cons seg_round_None)
    next
      case (Some e)
      then show ?thesis using 1 by (simp add: seg_run_Cons seg_round_Some)
    qed
  next
    case 2
    then show ?thesis by (auto simp: seg_run_Cons)
  qed
qed

lemma seg_run_twice: "seg_run fs r (seg_run fs r x) = seg_run fs r x"
  using seg_run_anchored [of fs r x] by (rule anchored_run)

lemma redact_all_twice:
  assumes fs: "\<forall>f\<in>set fs. CHR '';'' \<notin> set f" and r: "CHR '';'' \<notin> set r"
  shows "redact_all fs r (redact_all fs r m) = redact_all fs r m"
proof (induction m rule: segments_induct)
  case (segment s)
  have "CHR '';'' \<notin> set (seg_run fs r s)" using segment r by (rule seg_run_segment)
  then show ?case using segment r by (simp add: redact_all_seg_run seg_run_twice)
next
  case (semi a b)
  have "CHR '';'' \<notin> set (seg_run fs r a)" using semi(1) r by (rule seg_run_segment)
  then have "redact_all fs r (redact_all fs r a) = redact_all fs r a"
    using semi(1) r by (simp add: redact_all_seg_run seg_run_twice)
  then show ?case using semi fs by (simp add: redact_all_semi)
qed

section \<open>Stretches in their place\<close>

lemma redact_not_located:
  "plain_field f \<Longrightarrow> \<not> located f m \<Longrightarrow> redact f r m = m"
  by (simp add: redact_def located_def map_atom_of_plain sub_from_no_match)

lemma redact_all_not_located:
  "list_all plain_field fs \<Longrightarrow> \<forall>f\<in>set fs. \<not> located f m \<Longrightarrow> redact_all fs r m = m"
  by (induction fs) (simp_all add: redact_all_Nil redact_all_Cons redact_not_located)

lemma redact_all_empty: "redact_all fs r [] = []"
  by (induction fs) (simp_all add: redact_all_Nil redact_all_Cons redact_Nil)

lemma redact_all_in_place:
  assumes fs: "\<forall>f\<in>set fs. CHR '';'' \<notin> set f"
    and pre: "pre = [] \<or> last pre = CHR '';''"
    and post: "post = [] \<or> hd post = CHR '';''"
  shows "redact_all fs r (pre @ mid @ post) = redact_all fs r pre @ redact_all fs r mid @ redact_all fs r post"
proof -
  have right: "redact_all fs r (mid @ post) = redact_all fs r mid @ redact_all fs r post"
  proof (cases post)
    case Nil
    then show ?thesis by (simp add: redact_all_empty)
  next
    case (Cons c b)
    with post have c: "c = CHR '';''" by simp
    have "redact_all fs r ([] @ CHR '';'' # b) = redact_all fs r [] @ CHR '';'' # redact_all fs r b"
      using fs by (rule redact_all_semi)
    then show ?thesis
      using fs by (simp add: Cons c redact_all_semi redact_all_empty)
  qed
  show ?thesis
  proof (cases "pre = []")
    case True
    then show ?thesis using right by (simp add: redact_all_empty)
  next
    case False
    with pre obtain a where p: "pre = a @ [CHR '';'']"
      using append_butlast_last_id [of pre] by metis
    have "redact_all fs r (a @ CHR '';'' # []) = redact_all fs r a @ CHR '';'' # redact_all fs r []"
      using fs by (rule redact_all_semi)
    then have a: "redact_all fs r (a @ [CHR '';'']) = redact_all fs r a @ [CHR '';'']"
      by (simp add: redact_all_empty)
    have "redact_all fs r (a @ CHR '';'' # (mid @ post)) =
        redact_all fs r a @ CHR '';'' # redact_all fs r (mid @ post)"
      using fs by (rule redact_all_semi)
    then show ?thesis unfolding p a right by simp
  qed
qed

lemma prefix_short: "prefix key (u @ rest) \<Longrightarrow> length key \<le> length u \<Longrightarrow> prefix key u"
  using prefix_take_iff [of key "length u" "u @ rest"] by simp

section \<open>Pairs of a logged row\<close>

lemma first_end_behind:
  assumes "c \<notin> set u"
  shows "first_end (f @ [c]) (u @ rest) = Some e \<Longrightarrow> length u < e"
  using assms
proof (induction u arbitrary: e)
  case Nil
  then show ?case using first_end_bounds [of "f @ [c]" rest e] by simp
next
  case (Cons x u)
  show ?case
  proof (cases "prefix (f @ [c]) ((x # u) @ rest)")
    case True
    have "\<not> length (f @ [c]) \<le> length (x # u)"
    proof
      assume "length (f @ [c]) \<le> length (x # u)"
      with True have "prefix (f @ [c]) (x # u)" by (rule prefix_short)
      then have "set (f @ [c]) \<subseteq> set (x # u)" by (rule set_mono_prefix)
      with Cons.prems(2) show False by auto
    qed
    moreover have "e = length (f @ [c])" using True Cons.prems(1) by simp
    ultimately show ?thesis by simp
  next
    case False
    with Cons.prems(1) obtain e' where e': "first_end (f @ [c]) (u @ rest) = Some e'" "e = Suc e'"
      by auto
    with Cons.IH [of e'] Cons.prems(2) show ?thesis by simp
  qed
qed

lemma first_end_occurs: "\<exists>e. first_end key (a @ key @ b) = Some e \<and> e \<le> length a + length key"
proof (induction a)
  case Nil
  show ?case
  proof (cases "key @ b")
    case Nil
    then show ?thesis by simp
  next
    case (Cons x xs)
    have "prefix key (x # xs)" unfolding Cons [symmetric] by simp
    then show ?thesis using Cons by simp
  qed
next
  case (Cons x a)
  show ?case
  proof (cases "prefix key ((x # a) @ key @ b)")
    case True
    then show ?thesis by simp
  next
    case False
    with Cons show ?thesis by auto
  qed
qed

lemma first_end_own_key:
  assumes "CHR ''='' \<notin> set w" "CHR ''='' \<notin> set k"
  shows "first_end (k @ ''='') (w @ k @ ''='' @ v) = Some (Suc (length w + length k))"
proof -
  obtain e where e: "first_end (k @ ''='') (w @ (k @ ''='') @ v) = Some e"
      "e \<le> length w + length (k @ ''='')"
    using first_end_occurs [of "k @ ''=''" w v] by blast
  have "CHR ''='' \<notin> set (w @ k)" using assms by simp
  moreover have "first_end (k @ [CHR ''='']) ((w @ k) @ ''='' @ v) = Some e"
    using e(1) by simp
  ultimately have "length (w @ k) < e" by (rule first_end_behind)
  with e show ?thesis by simp
qed

lemma ends_own_key:
  assumes k: "k \<in> set fs" and w: "CHR ''='' \<notin> set w" "CHR ''='' \<notin> set k"
  shows "ends fs (w @ k @ ''='' @ v) = Some (Suc (length w + length k))"
  unfolding ends_Some
proof (intro conjI ballI allI impI)
  show "\<exists>f\<in>set fs. first_end (f @ ''='') (w @ k @ ''='' @ v) = Some (Suc (length w + length k))"
    using k first_end_own_key [OF w] by blast
next
  fix f e'
  assume "first_end (f @ ''='') (w @ k @ ''='' @ v) = Some e'"
  then have "first_end (f @ [CHR ''='']) ((w @ k) @ ''='' @ v) = Some e'" by simp
  moreover have "CHR ''='' \<notin> set (w @ k)" using w by simp
  ultimately have "length (w @ k) < e'" using first_end_behind by blast
  then show "Suc (length w + length k) \<le> e'" by simp
qed

lemma redact_all_own_pair:
  assumes "k \<in> set fs" "CHR ''='' \<notin> set w" "CHR ''='' \<notin> set k"
    "CHR '';'' \<notin> set (w @ k @ v)" "CHR '';'' \<notin> set r" "CHR ''='' \<notin> set r"
  shows "redact_all fs r (w @ k @ ''='' @ v) = w @ k @ ''='' @ r"
proof -
  have seg: "CHR '';'' \<notin> set (w @ k @ ''='' @ v)" using assms(4) by simp
  show ?thesis
    unfolding redact_all_segment [OF seg assms(5,6)] ends_own_key [OF assms(1-3)]
    by simp
qed

lemma redact_all_pair:
  assumes plain: "list_all plain_field fs"
    and r: "CHR '';'' \<notin> set r" "CHR ''='' \<notin> set r"
    and kv: "CHR ''='' \<notin> set k" "CHR '';'' \<notin> set k" "CHR '';'' \<notin> set v"
    and other: "k \<notin> set fs \<longrightarrow> (\<forall>f\<in>set fs. \<not> located f ('' '' @ k @ ''='' @ v))"
    and w: "w = [] \<or> w = '' ''"
  shows "redact_all fs r (w @ k @ ''='' @ v) = w @ k @ ''='' @ (if k \<in> set fs then r else v)"
proof (cases "k \<in> set fs")
  case True
  have w': "CHR ''='' \<notin> set w" "CHR '';'' \<notin> set (w @ k @ v)" using w kv by auto
  have "redact_all fs r (w @ k @ ''='' @ v) = w @ k @ ''='' @ r"
    using True w'(1) kv(1) w'(2) r by (rule redact_all_own_pair)
  with True show ?thesis by simp
next
  case False
  with other have n: "\<forall>f\<in>set fs. \<not> located f ('' '' @ k @ ''='' @ v)" by simp
  have "\<forall>f\<in>set fs. \<not> located f (w @ k @ ''='' @ v)"
    using w n by (auto simp: located_def)
  with plain False show ?thesis by (simp add: redact_all_not_located)
qed

lemma redact_all_joined:
  assumes plain: "list_all plain_field fs" and fs: "\<forall>f\<in>set fs. CHR '';'' \<notin> set f"
    and r: "CHR '';'' \<notin> set r" "CHR ''='' \<notin> set r"
    and w: "w = [] \<or> w = '' ''"
  shows "ps \<noteq> [] \<Longrightarrow>
    \<forall>(k, v)\<in>set ps. CHR ''='' \<notin> set k \<and> CHR '';'' \<notin> set k \<and> CHR '';'' \<notin> set v \<Longrightarrow>
    \<forall>(k, v)\<in>set ps. k \<notin> set fs \<longrightarrow> (\<forall>f\<in>set fs. \<not> located f ('' '' @ k @ ''='' @ v)) \<Longrightarrow>
    redact_all fs r (w @ join ''; '' (map (\<lambda>(col, val). col @ ''='' @ val) ps)) =
    w @ join ''; '' (map (\<lambda>(col, val). col @ ''='' @ val) (map (\<lambda>(k, v). (k, if k \<in> set fs then r else v)) ps))"
  using w
proof (induction ps arbitrary: w)
  case Nil
  then show ?case by simp
next
  case (Cons p ps)
  obtain k v where p: "p = (k, v)" by (cases p)
  have kv: "CHR ''='' \<notin> set k" "CHR '';'' \<notin> set k" "CHR '';'' \<notin> set v"
    "k \<notin> set fs \<longrightarrow> (\<forall>f\<in>set fs. \<not> located f ('' '' @ k @ ''='' @ v))"
    using Cons.prems(2,3) by (auto simp: p)
  have one: "redact_all fs r (w @ k @ ''='' @ v) = w @ k @ ''='' @ (if k \<in> set fs then r else v)"
    using plain r kv Cons.prems(4) by (rule redact_all_pair)
  show ?case
  proof (cases ps)
    case Nil
    then show ?thesis using one by (simp add: p)
  next
    case (Cons q qs)
    have ih: "redact_all fs r ('' '' @ join ''; '' (map (\<lambda>(col, val). col @ ''='' @ val) ps)) =
      '' '' @ join ''; '' (map (\<lambda>(col, val). col @ ''='' @ val) (map (\<lambda>(k, v). (k, if k \<in> set fs then r else v)) ps))"
      using Cons.IH [of "'' ''"] Cons.prems(2,3) Cons by simp
    have "redact_all fs r ((w @ k @ ''='' @ v) @ CHR '';'' # ('' '' @ join ''; '' (map (\<lambda>(col, val). col @ ''='' @ val) ps)))
       = redact_all fs r (w @ k @ ''='' @ v) @ CHR '';'' # redact_all fs r ('' '' @ join ''; '' (map (\<lambda>(col, val). col @ ''='' @ val) ps))"
      using fs by (rule redact_all_semi)
    then show ?thesis
      unfolding one ih by (simp add: p Cons)
  qed
qed

section \<open>Encoding a password\<close>





section \<open>The properties\<close>

subsection \<open>Exact redaction of a logged row\<close>

text \<open>
  C1. A message made of \<open>key=value\<close> pairs joined by \<open>; \<close>, as \<open>main\<close> logs it, and a list
  of fields taken from its keys, the token being \<open>***\<close> and the separator \<open>; \<close>:
  \<open>filter_datum\<close> returns the same pairs with the value of every key among the fields
  replaced by \<open>***\<close> and every other pair unchanged. This holds when the field names have
  no regular-expression metacharacter, keys hold no \<open>=\<close> and no \<open>;\<close>, values hold no \<open>;\<close>,
  and the text \<open>field=\<close> of a field occurs in no pair of another key (the blank in front
  of the pair counted).
\<close>

theorem filter_datum_redacts_exactly:
  assumes "list_all plain_field fs" and "set fs \<subseteq> fst ` set pairs"
    and "\<forall>(k, v)\<in>set pairs. CHR ''='' \<notin> set k \<and> CHR '';'' \<notin> set k \<and> CHR '';'' \<notin> set v"
    and "\<forall>(k, v)\<in>set pairs. k \<notin> set fs \<longrightarrow>
           (\<forall>f\<in>set fs. \<not> located f ('' '' @ k @ ''='' @ v))"
  shows "filter_datum fs ''***'' (user_data pairs) ''; '' =
     Return (user_data (map (\<lambda>(k, v). (k, if k \<in> set fs then ''***'' else v)) pairs))"
proof (cases "pairs = []")
  case True
  with assms(2) have "fs = []" by simp
  with True show ?thesis by (simp add: user_data_def)
next
  case False
  have fs: "\<forall>f\<in>set fs. CHR '';'' \<notin> set f"
    using assms(2,3) by fastforce
  have t: "literal_token ''***''" "CHR '';'' \<notin> set ''***''" "CHR ''='' \<notin> set ''***''"
    by (simp_all add: literal_token_def)
  have "redact_all fs ''***'' ([] @ join ''; '' (map (\<lambda>(col, val). col @ ''='' @ val) pairs)) =
    [] @ join ''; '' (map (\<lambda>(col, val). col @ ''='' @ val)
      (map (\<lambda>(k, v). (k, if k \<in> set fs then ''***'' else v)) pairs))"
    using assms(1) fs t(2,3) _ False assms(3,4) by (rule redact_all_joined) simp
  then show ?thesis
    using assms(1) t(1) by (simp add: filter_datum_plain user_data_def)
qed

text \<open>
  The scenario of the specification: \<open>name=John Smith; email=john@example.com;
  phone=555-1234\<close> with the fields \<open>name\<close> and \<open>email\<close>.
\<close>

theorem filter_datum_redacts_exactly_witness:
  "list_all plain_field [''name'', ''email''] \<and>
   set [''name'', ''email''] \<subseteq>
     fst ` set [(''name'', ''John Smith''), (''email'', ''john@example.com''),
                (''phone'', ''555-1234'')] \<and>
   user_data [(''name'', ''John Smith''), (''email'', ''john@example.com''),
              (''phone'', ''555-1234'')]
     = ''name=John Smith; email=john@example.com; phone=555-1234'' \<and>
   filter_datum [''name'', ''email''] ''***''
     ''name=John Smith; email=john@example.com; phone=555-1234'' ''; ''
     = Return ''name=***; email=***; phone=555-1234''"
proof -
  let ?ps = "[(''name'', ''John Smith''), (''email'', ''john@example.com''),
              (''phone'', ''555-1234'')]"
  let ?fs = "[''name'', ''email'']"
  have h1: "list_all plain_field ?fs" by (simp add: plain_field_def regex_special_def)
  have h2: "set ?fs \<subseteq> fst ` set ?ps" by simp
  have h3: "\<forall>(k, v)\<in>set ?ps. CHR ''='' \<notin> set k \<and> CHR '';'' \<notin> set k \<and> CHR '';'' \<notin> set v"
    by simp
  have h4: "\<forall>(k, v)\<in>set ?ps. k \<notin> set ?fs \<longrightarrow>
      (\<forall>f\<in>set ?fs. \<not> located f ('' '' @ k @ ''='' @ v))"
    by (simp add: located_def atom_of_def)
  have u: "user_data ?ps = ''name=John Smith; email=john@example.com; phone=555-1234''"
    by (simp add: user_data_def)
  have "filter_datum ?fs ''***'' (user_data ?ps) ''; '' =
     Return (user_data (map (\<lambda>(k, v). (k, if k \<in> set ?fs then ''***'' else v)) ?ps))"
    using h1 h2 h3 h4 by (rule filter_datum_redacts_exactly)
  then have "filter_datum ?fs ''***'' ''name=John Smith; email=john@example.com; phone=555-1234'' ''; ''
     = Return ''name=***; email=***; phone=555-1234''"
    by (simp add: user_data_def)
  with h1 h2 u show ?thesis by blast
qed

text \<open>
  Without the last condition the statement fails: with the keys \<open>user_email\<close> and \<open>email\<close> and
  the field \<open>email\<close>, the value of \<open>user_email\<close> is replaced as well.
\<close>

theorem filter_datum_redacts_other_key:
  "filter_datum [''email''] ''***'' (user_data [(''user_email'', ''a''), (''email'', ''b'')]) ''; ''
     = Return ''user_email=***; email=***'' \<and>
   filter_datum [''email''] ''***'' (user_data [(''user_email'', ''a''), (''email'', ''b'')]) ''; ''
     \<noteq> Return (user_data [(''user_email'', ''a''), (''email'', ''***'')])"
  by (simp add: user_data_def re_sub_field_def compile_field_def regex_special_def atom_of_def)

subsection \<open>A key that contains a field name\<close>

text \<open>
  C2. The match of a field is not anchored at the start of a key: it begins wherever the
  text \<open>field=\<close> occurs. Two things hold for a stretch of the message that lies between
  \<open>;\<close> characters (or the ends of the message), the text before and behind it being
  redacted as if it stood alone; the field names have no regular-expression
  metacharacter and no \<open>;\<close>, the token has no backslash. A stretch in which no \<open>field=\<close>
  occurs, such as \<open>emails=x\<close> for the field \<open>email\<close>, is left as it is. A stretch in which
  a field name stands right before the first \<open>=\<close>, whatever stands before the name (a
  key that ends with the field name, as \<open>user_email\<close>), has its value replaced by the
  token, when the token has no \<open>;\<close> and no \<open>=\<close>.
\<close>

theorem filter_datum_match_not_anchored:
  assumes "list_all plain_field fs" and "\<forall>f\<in>set fs. CHR '';'' \<notin> set f"
    and "literal_token r"
    and "pre = [] \<or> last pre = CHR '';''"
    and "post = [] \<or> hd post = CHR '';''"
  shows "\<exists>pre' post'. filter_datum fs r pre sep = Return pre' \<and>
           filter_datum fs r post sep = Return post' \<and>
           ((\<forall>f\<in>set fs. \<not> located f pair) \<longrightarrow>
              filter_datum fs r (pre @ pair @ post) sep = Return (pre' @ pair @ post')) \<and>
           (f \<in> set fs \<and> CHR ''='' \<notin> set (u @ f) \<and> CHR '';'' \<notin> set (u @ v) \<and>
            CHR '';'' \<notin> set r \<and> CHR ''='' \<notin> set r \<longrightarrow>
              filter_datum fs r (pre @ (u @ f @ ''='' @ v) @ post) sep
                = Return (pre' @ (u @ f @ ''='' @ r) @ post'))"
proof -
  have fd: "filter_datum fs r m sep = Return (redact_all fs r m)" for m
    using assms(1,3) by (rule filter_datum_plain)
  have place: "redact_all fs r (pre @ mid @ post)
      = redact_all fs r pre @ redact_all fs r mid @ redact_all fs r post" for mid
    using assms(2,4,5) by (rule redact_all_in_place)
  have kept: "redact_all fs r pair = pair" if "\<forall>f\<in>set fs. \<not> located f pair"
    using assms(1) that by (rule redact_all_not_located)
  have own: "redact_all fs r (u @ f @ ''='' @ v) = u @ f @ ''='' @ r"
    if "f \<in> set fs" "CHR ''='' \<notin> set (u @ f)" "CHR '';'' \<notin> set (u @ v)"
      "CHR '';'' \<notin> set r" "CHR ''='' \<notin> set r"
  proof -
    have "CHR '';'' \<notin> set f" using that(1) assms(2) by simp
    then have "CHR '';'' \<notin> set (u @ f @ v)" using that(3) by simp
    moreover have "CHR ''='' \<notin> set u" "CHR ''='' \<notin> set f" using that(2) by simp_all
    ultimately show ?thesis using that(1,4,5) by (intro redact_all_own_pair)
  qed
  show ?thesis
  proof (intro exI conjI impI)
    show "filter_datum fs r pre sep = Return (redact_all fs r pre)" by (rule fd)
    show "filter_datum fs r post sep = Return (redact_all fs r post)" by (rule fd)
    show "filter_datum fs r (pre @ pair @ post) sep
        = Return (redact_all fs r pre @ pair @ redact_all fs r post)"
      if "\<forall>f\<in>set fs. \<not> located f pair"
      using kept [OF that] by (simp only: fd place)
    show "filter_datum fs r (pre @ (u @ f @ ''='' @ v) @ post) sep
        = Return (redact_all fs r pre @ (u @ f @ ''='' @ r) @ redact_all fs r post)"
      if "f \<in> set fs \<and> CHR ''='' \<notin> set (u @ f) \<and> CHR '';'' \<notin> set (u @ v) \<and>
          CHR '';'' \<notin> set r \<and> CHR ''='' \<notin> set r"
    proof -
      from that have "redact_all fs r (u @ f @ ''='' @ v) = u @ f @ ''='' @ r"
        by (intro own) simp_all
      then show ?thesis by (simp only: fd place)
    qed
  qed
qed

text \<open>
  For the field \<open>email\<close>: the pair \<open>emails=x\<close> stays, the value of \<open>user_email\<close> goes.
\<close>

theorem filter_datum_match_not_anchored_witness:
  "list_all plain_field [''email''] \<and> literal_token ''***'' \<and>
   \<not> located ''email'' '' emails=x'' \<and>
   filter_datum [''email''] ''***'' ''name=Bob; emails=x; email=bob@example.com'' ''; ''
     = Return ''name=Bob; emails=x; email=***'' \<and>
   filter_datum [''email''] ''***'' ''name=Bob; user_email=ann@example.com; email=bob@example.com'' ''; ''
     = Return ''name=Bob; user_email=***; email=***''"
proof -
  have h1: "list_all plain_field [''email'']" by (simp add: plain_field_def regex_special_def)
  have h2: "\<forall>f\<in>set [''email'']. CHR '';'' \<notin> set f" by simp
  have h3: "literal_token ''***''" by (simp add: literal_token_def)
  have h4: "\<forall>f\<in>set [''email'']. \<not> located f '' emails=x''"
    by (simp add: located_def atom_of_def)
  have h5: "''name=Bob;'' = [] \<or> last ''name=Bob;'' = CHR '';''" by simp
  have h6: "''; email=bob@example.com'' = [] \<or> hd ''; email=bob@example.com'' = CHR '';''"
    by simp
  have h7: "''email'' \<in> set [''email''] \<and> CHR ''='' \<notin> set ('' user_'' @ ''email'') \<and>
      CHR '';'' \<notin> set ('' user_'' @ ''ann@example.com'') \<and>
      CHR '';'' \<notin> set ''***'' \<and> CHR ''='' \<notin> set ''***''"
    by simp
  have e: "compile_field ''email'' = Return (map Lit ''email'')"
    by (simp add: compile_field_def regex_special_def atom_of_def)
  have pre: "filter_datum [''email''] ''***'' ''name=Bob;'' ''; '' = Return ''name=Bob;''"
    by (simp add: re_sub_field_def e)
  have post: "filter_datum [''email''] ''***'' ''; email=bob@example.com'' ''; ''
      = Return ''; email=***''"
    by (simp add: re_sub_field_def e)
  from filter_datum_match_not_anchored [OF h1 h2 h3 h5 h6,
      of "''; ''" "'' emails=x''" "''email''" "'' user_''" "''ann@example.com''"]
  obtain pre' post' where o:
    "filter_datum [''email''] ''***'' ''name=Bob;'' ''; '' = Return pre'"
    "filter_datum [''email''] ''***'' ''; email=bob@example.com'' ''; '' = Return post'"
    "(\<forall>f\<in>set [''email'']. \<not> located f '' emails=x'') \<longrightarrow>
       filter_datum [''email''] ''***''
         (''name=Bob;'' @ '' emails=x'' @ ''; email=bob@example.com'') ''; ''
       = Return (pre' @ '' emails=x'' @ post')"
    "''email'' \<in> set [''email''] \<and> CHR ''='' \<notin> set ('' user_'' @ ''email'') \<and>
      CHR '';'' \<notin> set ('' user_'' @ ''ann@example.com'') \<and>
      CHR '';'' \<notin> set ''***'' \<and> CHR ''='' \<notin> set ''***'' \<longrightarrow>
       filter_datum [''email''] ''***''
         (''name=Bob;'' @ ('' user_'' @ ''email'' @ ''='' @ ''ann@example.com'')
            @ ''; email=bob@example.com'') ''; ''
       = Return (pre' @ ('' user_'' @ ''email'' @ ''='' @ ''***'') @ post')"
    by blast
  from o(1) pre have p1: "pre' = ''name=Bob;''" by simp
  from o(2) post have p2: "post' = ''; email=***''" by simp
  from o(3) h4 have a: "filter_datum [''email''] ''***''
         (''name=Bob;'' @ '' emails=x'' @ ''; email=bob@example.com'') ''; ''
       = Return (pre' @ '' emails=x'' @ post')"
    by blast
  from o(4) h7 have b: "filter_datum [''email''] ''***''
         (''name=Bob;'' @ ('' user_'' @ ''email'' @ ''='' @ ''ann@example.com'')
            @ ''; email=bob@example.com'') ''; ''
       = Return (pre' @ ('' user_'' @ ''email'' @ ''='' @ ''***'') @ post')"
    by blast
  from a have a': "filter_datum [''email''] ''***'' ''name=Bob; emails=x; email=bob@example.com'' ''; ''
     = Return ''name=Bob; emails=x; email=***''"
    unfolding p1 p2 by simp
  from b have b': "filter_datum [''email''] ''***''
       ''name=Bob; user_email=ann@example.com; email=bob@example.com'' ''; ''
     = Return ''name=Bob; user_email=***; email=***''"
    unfolding p1 p2 by simp
  from h1 h3 h4 a' b' show ?thesis by simp
qed

text \<open>
  A key that ends with the field name is matched: for the field \<open>email\<close> the pair
  \<open>user_email=ann@example.com\<close> is not left untouched.
\<close>

theorem filter_datum_suffix_key_redacted:
  "filter_datum [''email''] ''***'' ''user_email=ann@example.com'' ''; ''
     = Return ''user_email=***'' \<and>
   filter_datum [''email''] ''***'' ''user_email=ann@example.com'' ''; ''
     \<noteq> Return ''user_email=ann@example.com''"
  by (simp add: re_sub_field_def compile_field_def regex_special_def atom_of_def)

subsection \<open>The separator argument\<close>

text \<open>
  C3. The value of a field is to run to the next occurrence of the separator that was
  passed. The code reads \<open>;\<close> from the pattern and never the argument: with the separator
  \<open>,\<close> and the message \<open>name=John,age=3\<close> the match of \<open>name=\<close> runs to the end of the
  message and the pair \<open>age=3\<close> is lost, where the specification gives \<open>name=***,age=3\<close>.
\<close>

theorem filter_datum_ignores_separator:
  "filter_datum [''name''] ''***'' ''name=John,age=3'' '','' = Return ''name=***''"
  by (simp add: re_sub_field_def compile_field_def regex_special_def atom_of_def)

subsection \<open>Construction of the formatter\<close>




subsection \<open>Checking a password\<close>

text \<open>
  C5. \<open>is_valid\<close> is to return false, and never raise, on a mismatch, a malformed digest
  or a value of the wrong type; its docstring says "True if password matches, False
  otherwise". The code has no \<open>try\<close>: a password that holds the lone surrogate U+D800
  makes \<open>password.encode()\<close> raise \<open>UnicodeEncodeError\<close> before \<open>checkpw\<close> is called,
  whatever the digest is and whatever \<open>checkpw\<close> would do.
\<close>

theorem is_valid_raises_on_surrogate:
  "is_valid checkpw hashed_password [0xD800] = Raise UnicodeEncodeError"
  by (simp add: is_valid_def utf8_def)

subsection \<open>Hashing, then checking\<close>




subsection \<open>Redacting twice\<close>

text \<open>
  C6. Redacting the output again changes nothing, when the field names have no
  regular-expression metacharacter and no \<open>;\<close> and the token has no \<open>;\<close> and no
  backslash: \<open>filter_datum\<close> returns, and on its own output it returns that output.
\<close>

theorem filter_datum_idempotent:
  assumes "list_all plain_field fs" and "\<forall>f\<in>set fs. CHR '';'' \<notin> set f"
    and "literal_token r" and "CHR '';'' \<notin> set r"
  shows "\<exists>out. filter_datum fs r m sep = Return out \<and> filter_datum fs r out sep = Return out"
  using assms by (simp add: filter_datum_plain redact_all_twice)

theorem filter_datum_idempotent_witness:
  "list_all plain_field [''name'', ''email''] \<and> literal_token ''***'' \<and>
   CHR '';'' \<notin> set ''***'' \<and>
   filter_datum [''name'', ''email''] ''***'' ''name=Bob; email=bob@example.com; age=3'' ''; ''
     = Return ''name=***; email=***; age=3'' \<and>
   filter_datum [''name'', ''email''] ''***'' ''name=***; email=***; age=3'' ''; ''
     = Return ''name=***; email=***; age=3''"
proof -
  let ?fs = "[''name'', ''email'']"
  have h1: "list_all plain_field ?fs" by (simp add: plain_field_def regex_special_def)
  have h2: "\<forall>f\<in>set ?fs. CHR '';'' \<notin> set f" by simp
  have h3: "literal_token ''***''" by (simp add: literal_token_def)
  have h4: "CHR '';'' \<notin> set ''***''" by simp
  have ev: "filter_datum ?fs ''***'' ''name=Bob; email=bob@example.com; age=3'' ''; ''
      = Return ''name=***; email=***; age=3''"
    by (simp add: re_sub_field_def compile_field_def regex_special_def atom_of_def)
  obtain out where o:
    "filter_datum ?fs ''***'' ''name=Bob; email=bob@example.com; age=3'' ''; '' = Return out"
    "filter_datum ?fs ''***'' out ''; '' = Return out"
    using filter_datum_idempotent [OF h1 h2 h3 h4] by blast
  from o(1) ev have "out = ''name=***; email=***; age=3''" by simp
  with o(2) ev h1 h3 h4 show ?thesis by blast
qed

text \<open>
  With a token that holds \<open>;\<close> the second pass finds the field again behind the \<open>;\<close> of
  the first token, and the message grows.
\<close>

theorem filter_datum_twice_grows:
  "filter_datum [''id''] ''x;id='' ''id=7'' ''; '' = Return ''id=x;id='' \<and>
   filter_datum [''id''] ''x;id='' ''id=x;id='' ''; '' = Return ''id=x;id=;id=x;id='' \<and>
   ''id=x;id=;id=x;id='' \<noteq> ''id=x;id=''"
  by (simp add: re_sub_field_def compile_field_def regex_special_def atom_of_def)

subsection \<open>The order of the fields\<close>

text \<open>
  C7. Two field lists with the same elements, in any order and with any repetition,
  give the same output, when the field names have no regular-expression metacharacter
  and no \<open>;\<close> and the token has no \<open>;\<close>, no \<open>=\<close> and no backslash.
\<close>

theorem filter_datum_same_field_set:
  assumes "set gs = set fs" and "list_all plain_field fs"
    and "\<forall>f\<in>set fs. CHR '';'' \<notin> set f"
    and "literal_token r" and "CHR '';'' \<notin> set r" and "CHR ''='' \<notin> set r"
  shows "\<exists>out. filter_datum fs r m sep = Return out \<and> filter_datum gs r m sep = Return out"
proof -
  have "list_all plain_field gs" using assms(1,2) by (simp add: list_all_iff)
  moreover have "redact_all fs r m = redact_all gs r m"
    using assms(1) [symmetric] assms(3,5,6) by (rule redact_all_cong_set)
  ultimately show ?thesis using assms(2,4) by (simp add: filter_datum_plain)
qed

theorem filter_datum_same_field_set_witness:
  "set [''email'', ''name''] = set [''name'', ''email''] \<and>
   list_all plain_field [''name'', ''email''] \<and> literal_token ''***'' \<and>
   CHR '';'' \<notin> set ''***'' \<and> CHR ''='' \<notin> set ''***'' \<and>
   filter_datum [''name'', ''email''] ''***'' ''email=bob@example.com; name=Bob'' ''; ''
     = Return ''email=***; name=***'' \<and>
   filter_datum [''email'', ''name''] ''***'' ''email=bob@example.com; name=Bob'' ''; ''
     = Return ''email=***; name=***''"
proof -
  let ?fs = "[''name'', ''email'']"
  let ?gs = "[''email'', ''name'']"
  have h1: "set ?gs = set ?fs" by auto
  have h2: "list_all plain_field ?fs" by (simp add: plain_field_def regex_special_def)
  have h3: "\<forall>f\<in>set ?fs. CHR '';'' \<notin> set f" by simp
  have h4: "literal_token ''***''" by (simp add: literal_token_def)
  have h5: "CHR '';'' \<notin> set ''***''" by simp
  have h6: "CHR ''='' \<notin> set ''***''" by simp
  have ev: "filter_datum ?fs ''***'' ''email=bob@example.com; name=Bob'' ''; ''
      = Return ''email=***; name=***''"
    by (simp add: re_sub_field_def compile_field_def regex_special_def atom_of_def)
  obtain out where o:
    "filter_datum ?fs ''***'' ''email=bob@example.com; name=Bob'' ''; '' = Return out"
    "filter_datum ?gs ''***'' ''email=bob@example.com; name=Bob'' ''; '' = Return out"
    using filter_datum_same_field_set [OF h1 h2 h3 h4 h5 h6] by blast
  from o(1) ev have "out = ''email=***; name=***''" by simp
  with o(2) ev h1 h2 h4 h5 h6 show ?thesis by blast
qed

text \<open>
  With the token \<open>email=hidden\<close> the order shows: after \<open>name\<close> has been redacted the
  field \<open>email\<close> finds the token.
\<close>

theorem filter_datum_order_matters:
  "filter_datum [''name'', ''email''] ''email=hidden'' ''name=Bob'' ''; ''
     = Return ''name=email=email=hidden'' \<and>
   filter_datum [''email'', ''name''] ''email=hidden'' ''name=Bob'' ''; ''
     = Return ''name=email=hidden'' \<and>
   ''name=email=email=hidden'' \<noteq> ''name=email=hidden''"
  by (simp add: re_sub_field_def compile_field_def regex_special_def atom_of_def)

subsection \<open>A message without any of the fields\<close>

text \<open>
  C9. When no field can be located in the message, \<open>filter_datum\<close> returns the message
  unchanged and raises nothing, provided every field name is made of ordinary characters
  and dots and the token has no backslash. A name goes into the pattern as it is: when
  the first field name starts with \<open>*\<close>, \<open>+\<close> or \<open>?\<close>, \<open>filter_datum\<close> raises \<open>re.error\<close>,
  whatever the message, the token and the other fields.
\<close>

theorem filter_datum_nothing_located:
  "(list_all supported_field fs \<and> literal_token r \<and> (\<forall>f\<in>set fs. \<not> located f m) \<longrightarrow>
      filter_datum fs r m sep = Return m) \<and>
   (repeat_char c \<longrightarrow> filter_datum ((c # rest) # gs) r' m' sep' = Raise Re_error)"
proof (intro conjI impI)
  assume "list_all supported_field fs \<and> literal_token r \<and> (\<forall>f\<in>set fs. \<not> located f m)"
  then have "list_all supported_field fs" "literal_token r" "\<forall>f\<in>set fs. \<not> located f m"
    by simp_all
  then show "filter_datum fs r m sep = Return m"
  proof (induction fs)
    case Nil
    show ?case by simp
  next
    case (Cons f fs)
    then have "re_sub_field f r m = Return m"
      by (simp add: re_sub_field_not_located)
    with Cons show ?case by simp
  qed
next
  assume "repeat_char c"
  then have "compile_field (c # rest) = Raise Re_error" by (rule compile_repeat)
  then show "filter_datum ((c # rest) # gs) r' m' sep' = Raise Re_error"
    by (simp add: re_sub_field_def)
qed

text \<open>
  The fields of the module on a message that is no row, and the field \<open>+name\<close> in front of
  \<open>email\<close> on a row.
\<close>

theorem filter_datum_nothing_located_witness:
  "list_all supported_field PII_FIELDS \<and> literal_token REDACTION \<and>
   list_all (\<lambda>f. \<not> located f ''disk full on /dev/sda1'') PII_FIELDS \<and>
   filter_datum PII_FIELDS REDACTION ''disk full on /dev/sda1'' SEPARATOR
     = Return ''disk full on /dev/sda1'' \<and>
   repeat_char CHR ''+'' \<and>
   filter_datum [''+name'', ''email''] ''***'' ''name=Bob; email=a@b.c'' ''; '' = Raise Re_error"
proof -
  have h1: "list_all supported_field PII_FIELDS"
    by (simp add: PII_FIELDS_def supported_field_def regex_special_def)
  have h2: "literal_token REDACTION" by (simp add: REDACTION_def literal_token_def)
  have h3: "\<forall>f\<in>set PII_FIELDS. \<not> located f ''disk full on /dev/sda1''"
    by (simp add: PII_FIELDS_def located_def atom_of_def)
  have h3': "list_all (\<lambda>f. \<not> located f ''disk full on /dev/sda1'') PII_FIELDS"
    using h3 by (simp add: list_all_iff)
  have h4: "repeat_char CHR ''+''" by (simp add: repeat_char_def)
  note t = filter_datum_nothing_located [of PII_FIELDS REDACTION "''disk full on /dev/sda1''"
      SEPARATOR "CHR ''+''" "''name''" "[''email'']" "''***''" "''name=Bob; email=a@b.c''" "''; ''"]
  from t h1 h2 h3 have a: "filter_datum PII_FIELDS REDACTION ''disk full on /dev/sda1'' SEPARATOR
     = Return ''disk full on /dev/sda1''"
    by blast
  from t h4 have "filter_datum ((CHR ''+'' # ''name'') # [''email'']) ''***''
      ''name=Bob; email=a@b.c'' ''; '' = Raise Re_error"
    by blast
  then have b: "filter_datum [''+name'', ''email''] ''***'' ''name=Bob; email=a@b.c'' ''; ''
      = Raise Re_error"
    by simp
  from h1 h2 h3' a h4 b show ?thesis by blast
qed

text \<open>
  A field name that is no pattern: with the field \<open>*\<close> nothing can be located in
  \<open>hello\<close>, and \<open>re.sub\<close> raises \<open>re.error\<close>.
\<close>

theorem filter_datum_bad_pattern_raises:
  "\<not> located ''*'' ''hello'' \<and> filter_datum [''*''] ''***'' ''hello'' ''; '' = Raise Re_error"
  by (simp add: located_def atom_of_def re_sub_field_def compile_field_def regex_special_def
      repeat_char_def)

subsection \<open>The number of semicolons\<close>

text \<open>
  C10. When the token holds no \<open>;\<close> (and no backslash) and the field names have no
  regular-expression metacharacter, the output of \<open>filter_datum\<close> has as many \<open>;\<close> as the
  message.
\<close>

theorem filter_datum_keeps_semicolons:
  assumes "list_all plain_field fs" and "literal_token r" and "CHR '';'' \<notin> set r"
  shows "\<exists>out. filter_datum fs r m sep = Return out \<and>
           count_list out CHR '';'' = count_list m CHR '';''"
  using assms by (simp add: filter_datum_plain redact_all_count)

theorem filter_datum_keeps_semicolons_witness:
  "list_all plain_field [''name'', ''a;b''] \<and> literal_token ''***'' \<and>
   CHR '';'' \<notin> set ''***'' \<and>
   filter_datum [''name'', ''a;b''] ''***'' ''name=Bob; a;b=1; age=3'' ''; ''
     = Return ''name=***; a;b=***; age=3'' \<and>
   count_list ''name=***; a;b=***; age=3'' CHR '';'' = 3 \<and>
   count_list ''name=Bob; a;b=1; age=3'' CHR '';'' = 3"
proof -
  let ?fs = "[''name'', ''a;b'']"
  have h1: "list_all plain_field ?fs" by (simp add: plain_field_def regex_special_def)
  have h2: "literal_token ''***''" by (simp add: literal_token_def)
  have h3: "CHR '';'' \<notin> set ''***''" by simp
  have ev: "filter_datum ?fs ''***'' ''name=Bob; a;b=1; age=3'' ''; ''
      = Return ''name=***; a;b=***; age=3''"
    by (simp add: re_sub_field_def compile_field_def regex_special_def atom_of_def)
  obtain out where o:
    "filter_datum ?fs ''***'' ''name=Bob; a;b=1; age=3'' ''; '' = Return out"
    "count_list out CHR '';'' = count_list ''name=Bob; a;b=1; age=3'' CHR '';''"
    using filter_datum_keeps_semicolons [OF h1 h2 h3] by blast
  from o(1) ev have out: "out = ''name=***; a;b=***; age=3''" by simp
  have c: "count_list ''name=Bob; a;b=1; age=3'' CHR '';'' = 3" by simp
  from o(2) have "count_list ''name=***; a;b=***; age=3'' CHR '';'' = 3"
    unfolding out c .
  with ev c h1 h2 h3 show ?thesis by blast
qed

text \<open>
  A dot in a field name matches a \<open>;\<close> of the message, and the replacement writes the dot:
  the field \<open>.\<close> turns \<open>;=x\<close> into \<open>.=***\<close>, with one \<open>;\<close> less.
\<close>

theorem filter_datum_dot_eats_semicolon:
  "CHR '';'' \<notin> set ''***'' \<and>
   filter_datum [''.''] ''***'' '';=x'' ''; '' = Return ''.=***'' \<and>
   count_list ''.=***'' CHR '';'' \<noteq> count_list '';=x'' CHR '';''"
  by (simp add: re_sub_field_def compile_field_def regex_special_def atom_of_def)

end
